theory Spec2Isabelle
  imports Main "HOL-Library.Word" "HOL-Library.Char_ord" "HOL-Library.List_Lexorder"
begin

unbundle bit_operations_syntax

section \<open>The library functions the ledger calls\<close>

subsection \<open>SHA-256 and its hexadecimal digest\<close>

text \<open>
  \<^verbatim>\<open>hashlib.sha256(bs).hexdigest()\<close> on a byte string: SHA-256 as in FIPS 180-4, on
  32-bit words, the digest written as 64 lowercase hexadecimal characters. A byte is kept
  in a 32-bit word, so that no large natural number is ever built.
\<close>

type_synonym w32 = "32 word"

type_synonym regs = "w32 \<times> w32 \<times> w32 \<times> w32 \<times> w32 \<times> w32 \<times> w32 \<times> w32"

definition rotr :: "nat \<Rightarrow> w32 \<Rightarrow> w32" where
  "rotr n x = (drop_bit n x) OR (push_bit (32 - n) x)"

definition Ch :: "w32 \<Rightarrow> w32 \<Rightarrow> w32 \<Rightarrow> w32" where
  "Ch x y z = (x AND y) XOR (NOT x AND z)"

definition Maj :: "w32 \<Rightarrow> w32 \<Rightarrow> w32 \<Rightarrow> w32" where
  "Maj x y z = (x AND y) XOR (x AND z) XOR (y AND z)"

definition Sigma0 :: "w32 \<Rightarrow> w32" where
  "Sigma0 x = rotr 2 x XOR rotr 13 x XOR rotr 22 x"

definition Sigma1 :: "w32 \<Rightarrow> w32" where
  "Sigma1 x = rotr 6 x XOR rotr 11 x XOR rotr 25 x"

definition sigma0 :: "w32 \<Rightarrow> w32" where
  "sigma0 x = rotr 7 x XOR rotr 18 x XOR drop_bit 3 x"

definition sigma1 :: "w32 \<Rightarrow> w32" where
  "sigma1 x = rotr 17 x XOR rotr 19 x XOR drop_bit 10 x"

text \<open>The round constants and the initial hash value of the standard, in decimal.\<close>

definition K256 :: "w32 list" where
  "K256 = [
    1116352408, 1899447441, 3049323471, 3921009573, 961987163, 1508970993,
    2453635748, 2870763221, 3624381080, 310598401, 607225278, 1426881987,
    1925078388, 2162078206, 2614888103, 3248222580, 3835390401, 4022224774,
    264347078, 604807628, 770255983, 1249150122, 1555081692, 1996064986,
    2554220882, 2821834349, 2952996808, 3210313671, 3336571891, 3584528711,
    113926993, 338241895, 666307205, 773529912, 1294757372, 1396182291,
    1695183700, 1986661051, 2177026350, 2456956037, 2730485921, 2820302411,
    3259730800, 3345764771, 3516065817, 3600352804, 4094571909, 275423344,
    430227734, 506948616, 659060556, 883997877, 958139571, 1322822218,
    1537002063, 1747873779, 1955562222, 2024104815, 2227730452, 2361852424,
    2428436474, 2756734187, 3204031479, 3329325298]"

definition H256 :: regs where
  "H256 = (1779033703, 3144134277, 1013904242, 2773480762,
           1359893119, 2600822924, 528734635, 1541459225)"

text \<open>Padding: the byte 0x80, zero bytes up to 56 modulo 64, the bit length on 8 bytes.\<close>

definition be_bytes :: "nat \<Rightarrow> int \<Rightarrow> w32 list" where
  "be_bytes k n = map (\<lambda>i. of_int (drop_bit (8 * (k - 1 - i)) n mod 256)) [0..<k]"

definition pad :: "w32 list \<Rightarrow> w32 list" where
  "pad m = m @ [128] @ replicate ((119 - length m mod 64) mod 64) 0
             @ be_bytes 8 (8 * int (length m))"

fun words_of :: "w32 list \<Rightarrow> w32 list" where
  "words_of (a # b # c # d # r) =
     (push_bit 24 a OR push_bit 16 b OR push_bit 8 c OR d) # words_of r"
| "words_of _ = []"

fun chunks :: "nat \<Rightarrow> 'a list \<Rightarrow> 'a list list" where
  "chunks n xs = (if n = 0 \<or> xs = [] then [] else take n xs # chunks n (drop n xs))"

text \<open>The message schedule, newest word first.\<close>

fun schedule :: "nat \<Rightarrow> w32 list \<Rightarrow> w32 list" where
  "schedule 0 ws = ws"
| "schedule (Suc n) ws =
     schedule n ((sigma1 (ws ! 1) + ws ! 6 + sigma0 (ws ! 14) + ws ! 15) # ws)"

fun round256 :: "regs \<Rightarrow> w32 \<times> w32 \<Rightarrow> regs" where
  "round256 (a, b, c, d, e, f, g, h) (k, w) =
     (let t1 = h + Sigma1 e + Ch e f g + k + w;
          t2 = Sigma0 a + Maj a b c
      in (t1 + t2, a, b, c, d + t1, e, f, g))"

definition compress :: "regs \<Rightarrow> w32 list \<Rightarrow> regs" where
  "compress hs blk =
     (case hs of (a, b, c, d, e, f, g, h) \<Rightarrow>
        (case foldl round256 hs (zip K256 (rev (schedule 48 (rev blk)))) of
           (a', b', c', d', e', f', g', h') \<Rightarrow>
             (a + a', b + b', c + c', d + d', e + e', f + f', g + g', h + h')))"

definition sha256 :: "w32 list \<Rightarrow> regs" where
  "sha256 m = foldl compress H256 (chunks 16 (words_of (pad m)))"

definition hex_digit :: "nat \<Rightarrow> char" where
  "hex_digit n = ''0123456789abcdef'' ! (n mod 16)"

definition hex32 :: "w32 \<Rightarrow> string" where
  "hex32 w = map (\<lambda>i. hex_digit (unat (drop_bit (4 * (7 - i)) w AND 15))) [0..<8]"

definition sha256_hexdigest :: "string \<Rightarrow> string" where
  "sha256_hexdigest s =
     (case sha256 (map of_char s) of (a, b, c, d, e, f, g, h) \<Rightarrow>
        concat (map hex32 [a, b, c, d, e, f, g, h]))"

subsection \<open>Integers as text\<close>

text \<open>
  \<^verbatim>\<open>str(n)\<close> of a Python integer, which an f-string and \<^verbatim>\<open>json.dumps\<close> both use:
  decimal, no leading zero, a minus sign for a negative number.
\<close>

function digits :: "int \<Rightarrow> string" where
  "digits n = (if n < 10 then [char_of (48 + n)]
               else digits (n div 10) @ [char_of (48 + n mod 10)])"
  by pat_completeness auto
termination
  by (relation "measure nat") auto

definition str_int :: "int \<Rightarrow> string" where
  "str_int n = (if n < 0 then CHR ''-'' # digits (- n) else digits n)"

subsection \<open>JSON values and \<^verbatim>\<open>json.dumps(v, sort_keys=True)\<close>\<close>

text \<open>
  A Python \<^verbatim>\<open>dict\<close> is a list of key-value pairs in insertion order; a real dictionary
  has distinct keys. A string is a list of characters with code points below 256. A
  float is named by its \<^verbatim>\<open>repr\<close>, the text \<^verbatim>\<open>json.dumps\<close> writes for it (for a finite
  float the shortest decimal that reads back to it), so no floating-point arithmetic is
  modelled.
\<close>

datatype json =
    JNull
  | JBool bool
  | JInt int
  | JFloat string
  | JStr string
  | JList "json list"
  | JDict "(string \<times> json) list"

text \<open>
  \<^verbatim>\<open>py_encode_basestring_ascii\<close>: quote, backslash and the control characters with a
  short escape get it, every other character outside space..tilde becomes a
  \<^verbatim>\<open>\uXXXX\<close> escape.
\<close>

definition esc_char :: "char \<Rightarrow> string" where
  "esc_char c =
     (if c = CHR 0x22 then [CHR 0x5C, CHR 0x22]
      else if c = CHR 0x5C then [CHR 0x5C, CHR 0x5C]
      else if c = CHR 0x0A then [CHR 0x5C, CHR ''n'']
      else if c = CHR 0x0D then [CHR 0x5C, CHR ''r'']
      else if c = CHR 0x09 then [CHR 0x5C, CHR ''t'']
      else if c = CHR 0x08 then [CHR 0x5C, CHR ''b'']
      else if c = CHR 0x0C then [CHR 0x5C, CHR ''f'']
      else if (of_char c :: int) < 32 \<or> (of_char c :: int) > 126
        then [CHR 0x5C, CHR ''u'', CHR ''0'', CHR ''0'',
              hex_digit (nat (of_char c div 16)), hex_digit (nat (of_char c mod 16))]
      else [c])"

definition encode_str :: "string \<Rightarrow> string" where
  "encode_str s = CHR 0x22 # concat (map esc_char s) @ [CHR 0x22]"

fun join :: "string \<Rightarrow> string list \<Rightarrow> string" where
  "join sep [] = []"
| "join sep [x] = x"
| "join sep (x # y # ys) = x @ sep @ join sep (y # ys)"

text \<open>
  With \<^verbatim>\<open>sort_keys=True\<close> the items of every dictionary, at every depth, are written in
  the order of their keys (Python compares strings by code point, lexicographically).
  The order depends on the keys alone, so the model renders the values first and sorts
  the rendered items; the separators are the defaults \<^verbatim>\<open>", "\<close> and \<^verbatim>\<open>": "\<close>.
\<close>

fun dumps :: "json \<Rightarrow> string" where
  "dumps JNull = ''null''"
| "dumps (JBool b) = (if b then ''true'' else ''false'')"
| "dumps (JInt n) = str_int n"
| "dumps (JFloat r) = r"
| "dumps (JStr s) = encode_str s"
| "dumps (JList vs) = ''['' @ join '', '' (map dumps vs) @ '']''"
| "dumps (JDict kvs) =
     ''{'' @ join '', ''
        (map (\<lambda>(k, s). encode_str k @ '': '' @ s)
           (sort_key fst (map (\<lambda>(k, v). (k, dumps v)) kvs))) @ ''}''"

subsection \<open>The network location of an address\<close>

text \<open>
  \<^verbatim>\<open>urlparse(address).netloc\<close>, following \<^verbatim>\<open>urllib.parse.urlsplit\<close> of CPython 3.11:
  leading control characters and spaces are stripped, tab, CR and LF are removed, a
  scheme (a letter followed by letters, digits, \<^verbatim>\<open>+\<close>, \<^verbatim>\<open>-\<close>, \<^verbatim>\<open>.\<close> up to the first
  colon) is split off, and only if the rest starts with \<^verbatim>\<open>//\<close> is there a network
  location: what follows up to the first \<^verbatim>\<open>/\<close>, \<^verbatim>\<open>?\<close> or \<^verbatim>\<open>#\<close>. One bracket without
  the other raises \<^verbatim>\<open>ValueError\<close>. The validation of a bracketed IP literal, which
  later releases add, is not modelled.
\<close>

datatype py_error = IndexError | ValueError | RequestException

definition is_alpha :: "char \<Rightarrow> bool" where
  "is_alpha c \<longleftrightarrow> (let n = (of_char c :: int) in (65 \<le> n \<and> n \<le> 90) \<or> (97 \<le> n \<and> n \<le> 122))"

definition is_digit :: "char \<Rightarrow> bool" where
  "is_digit c \<longleftrightarrow> (let n = (of_char c :: int) in 48 \<le> n \<and> n \<le> 57)"

definition scheme_char :: "char \<Rightarrow> bool" where
  "scheme_char c \<longleftrightarrow> is_alpha c \<or> is_digit c \<or> c = CHR ''+'' \<or> c = CHR ''-'' \<or> c = CHR ''.''"

definition strip_scheme :: "string \<Rightarrow> string" where
  "strip_scheme url =
     (let pre = takeWhile (\<lambda>c. c \<noteq> CHR '':'') url in
      if CHR '':'' \<in> set url \<and> pre \<noteq> [] \<and> is_alpha (hd url) \<and> list_all scheme_char pre
      then drop (length pre + 1) url else url)"

definition netloc :: "string \<Rightarrow> py_error + string" where
  "netloc address =
     (let url = filter (\<lambda>c. c \<noteq> CHR 0x09 \<and> c \<noteq> CHR 0x0A \<and> c \<noteq> CHR 0x0D)
                  (dropWhile (\<lambda>c. (of_char c :: int) \<le> 32) address);
          url = strip_scheme url
      in if take 2 url = ''//''
         then (let loc = takeWhile (\<lambda>c. c \<noteq> CHR ''/'' \<and> c \<noteq> CHR ''?'' \<and> c \<noteq> CHR ''#'')
                           (drop 2 url)
               in if (CHR ''['' \<in> set loc) \<noteq> (CHR '']'' \<in> set loc)
                  then Inl ValueError else Inr loc)
         else Inr [])"

section \<open>The ledger\<close>

subsection \<open>Data\<close>

record transaction =
  sender :: string
  recipient :: string
  amount :: int

text \<open>
  A block is the dictionary \<^verbatim>\<open>new_block\<close> builds. The field \<^verbatim>\<open>proof\<close> is named
  \<open>proof_no\<close> here, the timestamp is the float's \<^verbatim>\<open>repr\<close>.
\<close>

record block =
  index :: int
  timestamp :: string
  transactions :: "transaction list"
  proof_no :: int
  previous_hash :: string

record blockchain =
  chain :: "block list"
  current_transactions :: "transaction list"
  nodes :: "string set"

text \<open>The dictionaries as Python builds them, keys in the order of the source.\<close>

definition transaction_dict :: "transaction \<Rightarrow> (string \<times> json) list" where
  "transaction_dict t =
     [(''sender'', JStr (sender t)),
      (''recipient'', JStr (recipient t)),
      (''amount'', JInt (amount t))]"

definition block_dict :: "block \<Rightarrow> (string \<times> json) list" where
  "block_dict b =
     [(''index'', JInt (index b)),
      (''timestamp'', JFloat (timestamp b)),
      (''transactions'', JList (map (\<lambda>t. JDict (transaction_dict t)) (transactions b))),
      (''proof'', JInt (proof_no b)),
      (''previous_hash'', JStr (previous_hash b))]"

subsection \<open>Hasher and proof of work\<close>

text \<open>\<^verbatim>\<open>Blockchain.hash\<close>, on a dictionary; \<open>hash_block\<close> is its use on a block.\<close>

definition hash :: "(string \<times> json) list \<Rightarrow> string" where
  "hash d = sha256_hexdigest (dumps (JDict d))"

definition hash_block :: "block \<Rightarrow> string" where
  "hash_block b = hash (block_dict b)"

definition valid_proof :: "int \<Rightarrow> int \<Rightarrow> bool" where
  "valid_proof last_proof p =
     (let guess = str_int last_proof @ str_int p;
          guess_hash = sha256_hexdigest guess
      in if take 4 guess_hash = ''0000'' then True else False)"

text \<open>The search loop of \<^verbatim>\<open>proof_of_work\<close> has no bound: not returning is \<open>None\<close>.\<close>

partial_function (option) proof_of_work_loop :: "int \<Rightarrow> int \<Rightarrow> int option" where
  "proof_of_work_loop last_proof p =
     (if valid_proof last_proof p then Some p else proof_of_work_loop last_proof (p + 1))"

definition proof_of_work :: "int \<Rightarrow> int option" where
  "proof_of_work last_proof = proof_of_work_loop last_proof 0"

subsection \<open>Blocks and transactions\<close>

definition last_block :: "blockchain \<Rightarrow> py_error + block" where
  "last_block s = (case chain s of [] \<Rightarrow> Inl IndexError | _ \<Rightarrow> Inr (last (chain s)))"

text \<open>
  \<^verbatim>\<open>new_block(proof, previous_hash)\<close>; \<open>now\<close> is what \<^verbatim>\<open>time()\<close> returns at the call.
  \<^verbatim>\<open>previous_hash or self.hash(self.last_block)\<close> takes the argument when it is truthy
  (a non-empty string) and only otherwise reads the last block, which raises on an empty
  chain.
\<close>

definition new_block ::
  "blockchain \<Rightarrow> string \<Rightarrow> int \<Rightarrow> string option \<Rightarrow> py_error + (blockchain \<times> block)" where
  "new_block s now p prev =
     (case (case prev of
              Some h \<Rightarrow> if h \<noteq> [] then Inr h else map_sum id hash_block (last_block s)
            | None \<Rightarrow> map_sum id hash_block (last_block s)) of
        Inl e \<Rightarrow> Inl e
      | Inr ph \<Rightarrow>
          (let b = \<lparr>index = int (length (chain s)) + 1,
                    timestamp = now,
                    transactions = current_transactions s,
                    proof_no = p,
                    previous_hash = ph\<rparr>
           in Inr (s\<lparr>current_transactions := [], chain := chain s @ [b]\<rparr>, b)))"

text \<open>\<^verbatim>\<open>Blockchain()\<close>: the empty ledger, then the genesis block.\<close>

definition empty_ledger :: blockchain where
  "empty_ledger = \<lparr>chain = [], current_transactions = [], nodes = {}\<rparr>"

definition init :: "string \<Rightarrow> py_error + blockchain" where
  "init now = map_sum id fst (new_block empty_ledger now 100 (Some ''1''))"

definition new_transaction ::
  "blockchain \<Rightarrow> string \<Rightarrow> string \<Rightarrow> int \<Rightarrow> py_error + (blockchain \<times> int)" where
  "new_transaction s sndr rcpt amt =
     (let s' = s\<lparr>current_transactions :=
                   current_transactions s @ [\<lparr>sender = sndr, recipient = rcpt, amount = amt\<rparr>]\<rparr>
      in case last_block s' of
           Inl e \<Rightarrow> Inl e
         | Inr b \<Rightarrow> Inr (s', index b + 1))"

subsection \<open>Chain validation\<close>

definition get :: "'a list \<Rightarrow> nat \<Rightarrow> py_error + 'a" where
  "get xs i = (if i < length xs then Inr (xs ! i) else Inl IndexError)"

function valid_chain_loop :: "block list \<Rightarrow> block \<Rightarrow> nat \<Rightarrow> py_error + bool" where
  "valid_chain_loop c last_b current_index =
     (if current_index < length c then
        (case get c current_index of
           Inl e \<Rightarrow> Inl e
         | Inr b \<Rightarrow>
             if previous_hash b \<noteq> hash_block last_b then Inr False
             else if \<not> valid_proof (proof_no last_b) (proof_no b) then Inr False
             else valid_chain_loop c b (current_index + 1))
      else Inr True)"
  by pat_completeness auto
termination
  by (relation "measure (\<lambda>(c, last_b, i). length c - i)") auto

definition valid_chain :: "block list \<Rightarrow> py_error + bool" where
  "valid_chain c =
     (case get c 0 of
        Inl e \<Rightarrow> Inl e
      | Inr last_b \<Rightarrow> valid_chain_loop c last_b 1)"

subsection \<open>Peers and conflict resolution\<close>

definition register_node :: "blockchain \<Rightarrow> string \<Rightarrow> py_error + blockchain" where
  "register_node s address =
     (case netloc address of
        Inl e \<Rightarrow> Inl e
      | Inr loc \<Rightarrow> Inr (s\<lparr>nodes := insert loc (nodes s)\<rparr>))"

text \<open>
  What \<^verbatim>\<open>requests.get\<close> returns for a URL: the status code and, from the JSON body,
  the reported length and chain; or it raises. The network is the function \<open>fetch\<close>;
  the order in which the loop visits the set of nodes is the list \<open>ns\<close>.
\<close>

record response =
  status_code :: int
  reported_length :: int
  reported_chain :: "block list"

fun resolve_loop ::
  "(string \<Rightarrow> py_error + response) \<Rightarrow> string list \<Rightarrow> int \<Rightarrow> block list option
     \<Rightarrow> py_error + (int \<times> block list option)" where
  "resolve_loop fetch [] max_length new_chain = Inr (max_length, new_chain)"
| "resolve_loop fetch (node # rest) max_length new_chain =
     (case fetch (''http://'' @ node @ ''/chain'') of
        Inl e \<Rightarrow> Inl e
      | Inr r \<Rightarrow>
          if status_code r = 200 then
            (if reported_length r > max_length then
               (case valid_chain (reported_chain r) of
                  Inl e \<Rightarrow> Inl e
                | Inr ok \<Rightarrow>
                    if ok then resolve_loop fetch rest (reported_length r) (Some (reported_chain r))
                    else resolve_loop fetch rest max_length new_chain)
             else resolve_loop fetch rest max_length new_chain)
          else resolve_loop fetch rest max_length new_chain)"

text \<open>
  The result is what the Python call returns: \<open>Some True\<close> for \<^verbatim>\<open>return True\<close>, \<open>None\<close>
  when the function ends without a \<^verbatim>\<open>return\<close>.
\<close>

definition resolve_conflicts ::
  "(string \<Rightarrow> py_error + response) \<Rightarrow> string list \<Rightarrow> blockchain
     \<Rightarrow> py_error + (blockchain \<times> bool option)" where
  "resolve_conflicts fetch ns s =
     (case resolve_loop fetch ns (int (length (chain s))) None of
        Inl e \<Rightarrow> Inl e
      | Inr (max_length, new_chain) \<Rightarrow>
          (case new_chain of
             None \<Rightarrow> Inr (s, None)
           | Some c \<Rightarrow> if c \<noteq> [] then Inr (s\<lparr>chain := c\<rparr>, Some True) else Inr (s, None)))"

section \<open>Predicates of the specification\<close>

text \<open>The index invariant: the block at position \<open>n\<close> (counted from 1) has index \<open>n\<close>.\<close>

definition well_indexed :: "block list \<Rightarrow> bool" where
  "well_indexed c \<longleftrightarrow> (\<forall>i<length c. index (c ! i) = int i + 1)"

text \<open>Block \<open>j\<close> of a chain is linked to its predecessor: hash link and proof of work.\<close>

definition linked :: "block list \<Rightarrow> nat \<Rightarrow> bool" where
  "linked c j \<longleftrightarrow>
     previous_hash (c ! j) = hash_block (c ! (j - 1)) \<and>
     valid_proof (proof_no (c ! (j - 1))) (proof_no (c ! j))"

text \<open>
  The ledgers produced from genesis by mining alone: every \<^verbatim>\<open>new_block\<close> call has
  \<^verbatim>\<open>previous_hash\<close> omitted and a proof that \<^verbatim>\<open>valid_proof\<close> accepts after the proof of the
  last block; transactions may be submitted in between.
\<close>

inductive mined :: "blockchain \<Rightarrow> bool" where
  genesis: "init now = Inr s \<Longrightarrow> mined s"
| submit: "mined s \<Longrightarrow> new_transaction s sndr rcpt amt = Inr (s', i) \<Longrightarrow> mined s'"
| mine: "mined s \<Longrightarrow> last_block s = Inr lb \<Longrightarrow> valid_proof (proof_no lb) p \<Longrightarrow>
         new_block s now p None = Inr (s', b) \<Longrightarrow> mined s'"

text \<open>
  The ledgers reachable by the operations of the class, where every chain a peer
  reports satisfies \<open>P\<close>: construction, \<^verbatim>\<open>new_transaction\<close>, \<^verbatim>\<open>new_block\<close> with any
  arguments, \<^verbatim>\<open>register_node\<close>, and \<^verbatim>\<open>resolve_conflicts\<close> against any network, the nodes
  visited in any order.
\<close>

inductive reachable :: "(block list \<Rightarrow> bool) \<Rightarrow> blockchain \<Rightarrow> bool" for P where
  r_init: "init now = Inr s \<Longrightarrow> reachable P s"
| r_transaction:
    "reachable P s \<Longrightarrow> new_transaction s sndr rcpt amt = Inr (s', i) \<Longrightarrow> reachable P s'"
| r_block: "reachable P s \<Longrightarrow> new_block s now p prev = Inr (s', b) \<Longrightarrow> reachable P s'"
| r_register: "reachable P s \<Longrightarrow> register_node s address = Inr s' \<Longrightarrow> reachable P s'"
| r_resolve:
    "reachable P s \<Longrightarrow> set ns = nodes s \<Longrightarrow> distinct ns \<Longrightarrow>
     (\<forall>url r. fetch url = Inr r \<longrightarrow> P (reported_chain r)) \<Longrightarrow>
     resolve_conflicts fetch ns s = Inr (s', res) \<Longrightarrow> reachable P s'"

definition any_chain :: "block list \<Rightarrow> bool" where
  "any_chain c \<longleftrightarrow> True"

text \<open>
  Two JSON values with the same content: equal up to the order in which the items of
  their dictionaries are presented, at every depth.
\<close>

inductive json_eq :: "json \<Rightarrow> json \<Rightarrow> bool" where
  eq_null: "json_eq JNull JNull"
| eq_bool: "json_eq (JBool b) (JBool b)"
| eq_int: "json_eq (JInt n) (JInt n)"
| eq_float: "json_eq (JFloat r) (JFloat r)"
| eq_str: "json_eq (JStr s) (JStr s)"
| eq_list: "list_all2 json_eq xs ys \<Longrightarrow> json_eq (JList xs) (JList ys)"
| eq_dict:
    "distinct (map fst xs) \<Longrightarrow> distinct (map fst ys) \<Longrightarrow> fst ` set xs = fst ` set ys \<Longrightarrow>
     (\<forall>k v w. (k, v) \<in> set xs \<longrightarrow> (k, w) \<in> set ys \<longrightarrow> json_eq v w) \<Longrightarrow>
     json_eq (JDict xs) (JDict ys)"

section \<open>Example data\<close>

definition genesis_block :: block where
  "genesis_block =
     \<lparr>index = 1, timestamp = ''1500000000.0'', transactions = [],
      proof_no = 100, previous_hash = ''1''\<rparr>"

definition fresh_ledger :: blockchain where
  "fresh_ledger = \<lparr>chain = [genesis_block], current_transactions = [], nodes = {}\<rparr>"

definition second_block :: block where
  "second_block =
     \<lparr>index = 2, timestamp = ''1500000060.0'', transactions = [],
      proof_no = 35293, previous_hash = hash_block genesis_block\<rparr>"

definition mined_ledger :: blockchain where
  "mined_ledger =
     \<lparr>chain = [genesis_block, second_block], current_transactions = [], nodes = {}\<rparr>"

text \<open>A peer whose two blocks are linked but both carry the index 7.\<close>

definition peer_block1 :: block where
  "peer_block1 = genesis_block\<lparr>index := 7\<rparr>"

definition peer_block2 :: block where
  "peer_block2 =
     \<lparr>index = 7, timestamp = ''1500000060.0'', transactions = [],
      proof_no = 35293, previous_hash = hash_block peer_block1\<rparr>"

definition peer_fetch :: "string \<Rightarrow> py_error + response" where
  "peer_fetch url =
     (if url = ''http://10.0.0.2:5000/chain''
      then Inr \<lparr>status_code = 200, reported_length = 2,
                reported_chain = [peer_block1, peer_block2]\<rparr>
      else Inl RequestException)"

definition peered_ledger :: blockchain where
  "peered_ledger = fresh_ledger\<lparr>nodes := {''10.0.0.2:5000''}\<rparr>"

definition adopted_ledger :: blockchain where
  "adopted_ledger = peered_ledger\<lparr>chain := [peer_block1, peer_block2]\<rparr>"

text \<open>
  A block with a reward transaction, and the same content as a peer's JSON presents it:
  the keys of the block and of the transaction in alphabetical order; and with only the
  fields of the block in another order.
\<close>

definition reward_block :: block where
  "reward_block =
     \<lparr>index = 2, timestamp = ''1500000060.0'',
      transactions = [\<lparr>sender = ''0'', recipient = ''node'', amount = 1\<rparr>],
      proof_no = 35293, previous_hash = ''abc''\<rparr>"

definition received_dict :: "(string \<times> json) list" where
  "received_dict =
     [(''index'', JInt 2),
      (''previous_hash'', JStr ''abc''),
      (''proof'', JInt 35293),
      (''timestamp'', JFloat ''1500000060.0''),
      (''transactions'',
         JList [JDict [(''amount'', JInt 1), (''recipient'', JStr ''node''),
                       (''sender'', JStr ''0'')]])]"

definition shuffled_dict :: "(string \<times> json) list" where
  "shuffled_dict =
     [(''previous_hash'', JStr ''abc''),
      (''transactions'',
         JList [JDict [(''sender'', JStr ''0''), (''recipient'', JStr ''node''),
                       (''amount'', JInt 1)]]),
      (''index'', JInt 2),
      (''proof'', JInt 35293),
      (''timestamp'', JFloat ''1500000060.0'')]"

section \<open>Proof of work\<close>

declare valid_chain_loop.simps [simp del] digits.simps [simp del] chunks.simps [simp del]

lemma length_hex32: "length (hex32 w) = 8"
  by (simp add: hex32_def)

lemma length_sha256_hexdigest: "length (sha256_hexdigest s) = 64"
  by (simp add: sha256_hexdigest_def length_hex32 split: prod.splits)

lemma take4_zeros:
  assumes "length d \<ge> 4"
  shows "(take 4 d = ''0000'') = (\<forall>i<4. d ! i = CHR ''0'')"
proof -
  from assms obtain a b c e r where d: "d = a # b # c # e # r"
    by (cases d; cases "tl d"; cases "tl (tl d)"; cases "tl (tl (tl d))") auto
  have "(\<forall>i<4. d ! i = CHR ''0'') = (\<forall>i<Suc (Suc (Suc (Suc 0))). d ! i = CHR ''0'')"
    by (simp add: numeral_eq_Suc)
  also have "\<dots> = (take 4 d = ''0000'')"
    unfolding All_less_Suc by (auto simp: d)
  finally show ?thesis by simp
qed

text \<open>
  Two evaluations of SHA-256 inside the logic: 35293 is a proof of work after 100
  (the digest of \<^verbatim>\<open>10035293\<close> starts \<^verbatim>\<open>0000c415\<close>), 0 is not.
\<close>

lemma valid_proof_100_35293: "valid_proof 100 35293"
  by code_simp

lemma not_valid_proof_100_0: "\<not> valid_proof 100 0"
  by code_simp

text \<open>
  C6. \<^verbatim>\<open>valid_proof(p, q)\<close> is true exactly when each of the first four characters of
  the hexadecimal SHA-256 digest of the decimal text of \<open>p\<close> followed by that of \<open>q\<close>
  is the character 0.
\<close>

theorem valid_proof_iff:
  "valid_proof p q \<longleftrightarrow>
     (\<forall>i<4. sha256_hexdigest (str_int p @ str_int q) ! i = CHR ''0'')"
  using take4_zeros [of "sha256_hexdigest (str_int p @ str_int q)"]
  by (simp add: valid_proof_def length_sha256_hexdigest)

theorem valid_proof_iff_witness:
  "valid_proof 100 35293 \<and>
   sha256_hexdigest (str_int 100 @ str_int 35293) ! 0 = CHR ''0'' \<and>
   sha256_hexdigest (str_int 100 @ str_int 35293) ! 1 = CHR ''0'' \<and>
   sha256_hexdigest (str_int 100 @ str_int 35293) ! 2 = CHR ''0'' \<and>
   sha256_hexdigest (str_int 100 @ str_int 35293) ! 3 = CHR ''0''"
proof -
  from valid_proof_iff [of 100 35293] valid_proof_100_35293
  have "\<forall>i<4. sha256_hexdigest (str_int 100 @ str_int 35293) ! i = CHR ''0''"
    by blast
  then have "sha256_hexdigest (str_int 100 @ str_int 35293) ! i = CHR ''0''" if "i < 4" for i
    using that by blast
  from this [of 0] this [of 1] this [of 2] this [of 3] valid_proof_100_35293
  show ?thesis by simp
qed

lemma pow_loop_finds:
  assumes "valid_proof lp q" "p \<le> q"
  shows "\<exists>r. proof_of_work_loop lp p = Some r \<and> p \<le> r \<and> r \<le> q \<and> valid_proof lp r
            \<and> (\<forall>q'. p \<le> q' \<and> q' < r \<longrightarrow> \<not> valid_proof lp q')"
  using assms
proof (induction "nat (q - p)" arbitrary: p)
  case 0
  then have "p = q" by simp
  with 0 show ?case by (subst proof_of_work_loop.simps) auto
next
  case (Suc n)
  show ?case
  proof (cases "valid_proof lp p")
    case True
    with Suc.prems show ?thesis by (subst proof_of_work_loop.simps) auto
  next
    case False
    from Suc have "n = nat (q - (p + 1))" "p + 1 \<le> q" by auto
    from Suc.hyps(1) [OF this(1) Suc.prems(1) this(2)]
    obtain r where r: "proof_of_work_loop lp (p + 1) = Some r" "p + 1 \<le> r" "r \<le> q"
      "valid_proof lp r" "\<forall>q'. p + 1 \<le> q' \<and> q' < r \<longrightarrow> \<not> valid_proof lp q'" by blast
    have "\<forall>q'. p \<le> q' \<and> q' < r \<longrightarrow> \<not> valid_proof lp q'"
    proof (intro allI impI)
      fix q' assume "p \<le> q' \<and> q' < r"
      then have "q' = p \<or> (p + 1 \<le> q' \<and> q' < r)" by auto
      with False r(5) show "\<not> valid_proof lp q'" by blast
    qed
    with r False show ?thesis by (subst proof_of_work_loop.simps) auto
  qed
qed

text \<open>
  C5. If some non-negative \<open>q\<close> is accepted by \<^verbatim>\<open>valid_proof(p, q)\<close>, the search
  \<^verbatim>\<open>proof_of_work(p)\<close> returns, and what it returns is the least non-negative integer
  that \<^verbatim>\<open>valid_proof\<close> accepts after \<open>p\<close>.
\<close>

theorem proof_of_work_least:
  assumes "0 \<le> q" "valid_proof p q"
  shows "\<exists>r. proof_of_work p = Some r \<and> 0 \<le> r \<and> valid_proof p r
            \<and> (\<forall>q'. 0 \<le> q' \<and> q' < r \<longrightarrow> \<not> valid_proof p q')"
  using pow_loop_finds [OF assms(2) assms(1)] unfolding proof_of_work_def by blast

theorem proof_of_work_least_witness:
  "(0::int) \<le> 35293 \<and> valid_proof 100 35293 \<and>
   (\<exists>r. proof_of_work 100 = Some r \<and> 0 \<le> r \<and> valid_proof 100 r
        \<and> (\<forall>q'. 0 \<le> q' \<and> q' < r \<longrightarrow> \<not> valid_proof 100 q'))"
proof -
  have h: "(0::int) \<le> 35293" by simp
  from proof_of_work_least [OF h valid_proof_100_35293] h valid_proof_100_35293
  show ?thesis by blast
qed

section \<open>Chain validation\<close>

lemma get_in_range: "i < length xs \<Longrightarrow> get xs i = Inr (xs ! i)"
  by (simp add: get_def)

lemma upward_split:
  "i < n \<Longrightarrow> (\<forall>j. i \<le> j \<and> j < n \<longrightarrow> Q j) = (Q i \<and> (\<forall>j. i + 1 \<le> j \<and> j < n \<longrightarrow> Q j))"
  for i n :: nat
proof -
  have "i \<le> j \<longleftrightarrow> j = i \<or> i + 1 \<le> j" for j by auto
  then show "i < n \<Longrightarrow> ?thesis" by auto
qed

lemma valid_chain_loop_linked:
  "0 < i \<Longrightarrow> i \<le> length c \<Longrightarrow> last_b = c ! (i - 1) \<Longrightarrow>
   valid_chain_loop c last_b i = Inr (\<forall>j. i \<le> j \<and> j < length c \<longrightarrow> linked c j)"
proof (induction c last_b i rule: valid_chain_loop.induct)
  case (1 c last_b i)
  show ?case
  proof (cases "i < length c")
    case False
    then show ?thesis by (subst valid_chain_loop.simps) auto
  next
    case True
    note g = get_in_range [OF True]
    show ?thesis
    proof (cases "linked c i")
      case False
      with True "1.prems" show ?thesis
        by (subst valid_chain_loop.simps) (auto simp: g linked_def)
    next
      case lk: True
      then have a: "\<not> previous_hash (c ! i) \<noteq> hash_block last_b"
        and b: "\<not> \<not> valid_proof (proof_no last_b) (proof_no (c ! i))"
        using "1.prems" by (auto simp: linked_def)
      have "valid_chain_loop c (c ! i) (i + 1)
              = Inr (\<forall>j. i + 1 \<le> j \<and> j < length c \<longrightarrow> linked c j)"
        using "1.IH" [OF True g a b] True by simp
      with lk a b True show ?thesis
        by (subst valid_chain_loop.simps) (simp add: g upward_split [OF True])
    qed
  qed
qed

lemma valid_chain_linked:
  "c \<noteq> [] \<Longrightarrow> valid_chain c = Inr (\<forall>j. 0 < j \<and> j < length c \<longrightarrow> linked c j)"
  using valid_chain_loop_linked [of 1 c "c ! 0"]
  by (cases c) (auto simp: valid_chain_def get_def Suc_le_eq)

text \<open>
  C8. \<^verbatim>\<open>valid_chain\<close> fails on the empty chain, where its first step reads element 0
  and raises \<^verbatim>\<open>IndexError\<close>; on every chain with at least one block each read is in
  range and a boolean is returned, and a chain of exactly one block is valid.
\<close>

theorem valid_chain_total:
  "valid_chain [] = Inl IndexError \<and>
   (c \<noteq> [] \<longrightarrow> (\<exists>ok. valid_chain c = Inr ok)) \<and>
   valid_chain [b] = Inr True"
  by (simp add: valid_chain_linked) (simp add: valid_chain_def get_def)

theorem valid_chain_total_witness:
  "[genesis_block, second_block] \<noteq> [] \<and>
   (\<exists>ok. valid_chain [genesis_block, second_block] = Inr ok)"
  using valid_chain_total [of "[genesis_block, second_block]"] by simp

lemma last_block_Inr: "last_block s = Inr lb \<longleftrightarrow> chain s \<noteq> [] \<and> lb = last (chain s)"
  by (auto simp: last_block_def split: list.splits)

lemma new_block_None:
  "chain s \<noteq> [] \<Longrightarrow>
   new_block s now p None =
     (let b = \<lparr>index = int (length (chain s)) + 1, timestamp = now,
               transactions = current_transactions s, proof_no = p,
               previous_hash = hash_block (last (chain s))\<rparr>
      in Inr (s\<lparr>current_transactions := [], chain := chain s @ [b]\<rparr>, b))"
  by (auto simp: new_block_def last_block_def Let_def split: list.splits)

lemma init_eq:
  "init now = Inr \<lparr>chain = [\<lparr>index = 1, timestamp = now, transactions = [],
                               proof_no = 100, previous_hash = ''1''\<rparr>],
                    current_transactions = [], nodes = {}\<rparr>"
  by (simp add: init_def new_block_def empty_ledger_def Let_def)

lemma new_transaction_chain:
  "new_transaction s sndr rcpt amt = Inr (s', i) \<Longrightarrow> chain s' = chain s \<and> nodes s' = nodes s"
  by (auto simp: new_transaction_def Let_def split: sum.splits)

lemma mined_linked:
  "mined s \<Longrightarrow> chain s \<noteq> [] \<and> (\<forall>j. 0 < j \<and> j < length (chain s) \<longrightarrow> linked (chain s) j)"
proof (induction rule: mined.induct)
  case (genesis now s)
  then show ?case by (auto simp: init_eq)
next
  case (submit s sndr rcpt amt s' i)
  then show ?case by (auto dest: new_transaction_chain)
next
  case (mine s lb p now s' b)
  then have ne: "chain s \<noteq> []" and lb: "lb = last (chain s)"
    by (auto simp: last_block_Inr)
  from mine.hyps(4) have c': "chain s' = chain s @ [b]"
    and b: "previous_hash b = hash_block (last (chain s))" "proof_no b = p"
    by (auto simp: new_block_None [OF ne] Let_def)
  have "linked (chain s') j" if "0 < j" "j < length (chain s')" for j
  proof (cases "j < length (chain s)")
    case True
    moreover from True have "j - 1 < length (chain s)" by simp
    ultimately show ?thesis using mine.IH that by (simp add: linked_def c' nth_append)
  next
    case False
    with that c' have j: "j = length (chain s)" by simp
    with ne mine.hyps(3) lb b show ?thesis
      by (simp add: linked_def c' nth_append last_conv_nth)
  qed
  with c' show ?case by simp
qed

lemma tampered_not_valid:
  assumes "0 < i" "i < length c" "\<not> linked (c[i := x]) i"
  shows "valid_chain (c[i := x]) = Inr False"
proof -
  from assms have "c[i := x] \<noteq> []" by auto
  from valid_chain_linked [OF this] assms show ?thesis by auto
qed

text \<open>
  C4. \<^verbatim>\<open>valid_chain\<close> accepts the chain of every ledger produced from genesis by mining
  with accepted proofs and \<^verbatim>\<open>previous_hash\<close> omitted. It rejects such a chain once the
  \<^verbatim>\<open>previous_hash\<close> of a block after the first is replaced by a value other than the
  digest of its predecessor, or its proof by one that \<^verbatim>\<open>valid_proof\<close> does not accept
  after the predecessor's proof.
\<close>

theorem valid_chain_mined:
  assumes "mined s"
  shows "valid_chain (chain s) = Inr True \<and>
    (0 < i \<and> i < length (chain s) \<and> h \<noteq> hash_block (chain s ! (i - 1)) \<longrightarrow>
       valid_chain ((chain s)[i := (chain s ! i)\<lparr>previous_hash := h\<rparr>]) = Inr False) \<and>
    (0 < i \<and> i < length (chain s) \<and> \<not> valid_proof (proof_no (chain s ! (i - 1))) q \<longrightarrow>
       valid_chain ((chain s)[i := (chain s ! i)\<lparr>proof_no := q\<rparr>]) = Inr False)"
proof (intro conjI impI)
  from mined_linked [OF assms] show "valid_chain (chain s) = Inr True"
    by (simp add: valid_chain_linked)
next
  assume "0 < i \<and> i < length (chain s) \<and> h \<noteq> hash_block (chain s ! (i - 1))"
  then show "valid_chain ((chain s)[i := (chain s ! i)\<lparr>previous_hash := h\<rparr>]) = Inr False"
    by (intro tampered_not_valid) (auto simp: linked_def)
next
  assume "0 < i \<and> i < length (chain s) \<and> \<not> valid_proof (proof_no (chain s ! (i - 1))) q"
  then show "valid_chain ((chain s)[i := (chain s ! i)\<lparr>proof_no := q\<rparr>]) = Inr False"
    by (intro tampered_not_valid) (auto simp: linked_def)
qed

lemma mined_mined_ledger: "mined mined_ledger"
proof -
  have "mined fresh_ledger"
    by (rule mined.genesis [of "''1500000000.0''"])
       (simp add: init_eq fresh_ledger_def genesis_block_def)
  moreover have "last_block fresh_ledger = Inr genesis_block"
    by (simp add: last_block_def fresh_ledger_def)
  moreover have "valid_proof (proof_no genesis_block) 35293"
    using valid_proof_100_35293 by (simp add: genesis_block_def)
  moreover have "new_block fresh_ledger ''1500000060.0'' 35293 None
                   = Inr (mined_ledger, second_block)"
    by (simp add: new_block_None fresh_ledger_def mined_ledger_def second_block_def Let_def)
  ultimately show ?thesis by (rule mined.mine)
qed

theorem valid_chain_mined_witness:
  "mined mined_ledger \<and>
   valid_chain (chain mined_ledger) = Inr True \<and>
   valid_chain ((chain mined_ledger)[1 := (chain mined_ledger ! 1)\<lparr>previous_hash := ''''\<rparr>])
     = Inr False \<and>
   valid_chain ((chain mined_ledger)[1 := (chain mined_ledger ! 1)\<lparr>proof_no := 0\<rparr>])
     = Inr False"
proof -
  have len: "length (chain mined_ledger) = 2" and g: "chain mined_ledger ! (1 - 1) = genesis_block"
    by (simp_all add: mined_ledger_def)
  have h: "'''' \<noteq> hash_block genesis_block"
    using length_sha256_hexdigest [of "dumps (JDict (block_dict genesis_block))"]
    by (auto simp: hash_block_def hash_def)
  have q: "\<not> valid_proof (proof_no genesis_block) 0"
    using not_valid_proof_100_0 by (simp add: genesis_block_def)
  from valid_chain_mined [OF mined_mined_ledger, of 1 "''''" 0] len g h q mined_mined_ledger
  show ?thesis by simp
qed

section \<open>Committing a block\<close>

lemma new_block_result:
  "new_block s now p prev = Inr (s', b) \<Longrightarrow>
   chain s' = chain s @ [b] \<and> index b = int (length (chain s)) + 1 \<and> nodes s' = nodes s"
  by (cases "last_block s")
     (auto simp: new_block_def Let_def split: option.splits if_splits)

lemma well_indexed_append:
  "well_indexed c \<Longrightarrow> index b = int (length c) + 1 \<Longrightarrow> well_indexed (c @ [b])"
  by (auto simp: well_indexed_def nth_append less_Suc_eq)

lemma well_indexed_last:
  "well_indexed c \<Longrightarrow> c \<noteq> [] \<Longrightarrow> index (last c) = int (length c)"
  by (cases c rule: rev_cases) (auto simp: well_indexed_def nth_append)

text \<open>
  C3, as the code has it. On a ledger with a non-empty chain, \<^verbatim>\<open>new_block(proof)\<close> with
  \<^verbatim>\<open>previous_hash\<close> omitted appends exactly one block \<open>b\<close>, leaves every other block as
  it was, empties the pending pool and returns \<open>b\<close>; \<open>b\<close> holds the digest of the former
  last block, the pending transactions of the call, and as index the former length of
  the chain plus 1. That is the former last block's index plus 1 when the chain
  numbers its blocks by position.
\<close>

theorem new_block_appends:
  assumes "chain s \<noteq> []"
  shows "\<exists>b. new_block s now p None
                = Inr (s\<lparr>current_transactions := [], chain := chain s @ [b]\<rparr>, b) \<and>
              previous_hash b = hash_block (last (chain s)) \<and>
              index b = int (length (chain s)) + 1 \<and>
              (well_indexed (chain s) \<longrightarrow> index b = index (last (chain s)) + 1) \<and>
              transactions b = current_transactions s \<and>
              proof_no b = p \<and> timestamp b = now"
  using assms by (simp add: new_block_None Let_def well_indexed_last)

theorem new_block_appends_witness:
  "chain fresh_ledger \<noteq> [] \<and> well_indexed (chain fresh_ledger) \<and>
   (\<exists>b. new_block fresh_ledger ''1500000060.0'' 35293 None
           = Inr (fresh_ledger\<lparr>current_transactions := [],
                                chain := chain fresh_ledger @ [b]\<rparr>, b) \<and>
         previous_hash b = hash_block (last (chain fresh_ledger)) \<and>
         index b = index (last (chain fresh_ledger)) + 1)"
proof -
  have ne: "chain fresh_ledger \<noteq> []" by (simp add: fresh_ledger_def)
  have wi: "well_indexed (chain fresh_ledger)"
    by (simp add: fresh_ledger_def well_indexed_def genesis_block_def)
  from new_block_appends [OF ne, of "''1500000060.0''" 35293] ne wi show ?thesis by blast
qed

text \<open>
  C9. \<^verbatim>\<open>new_block\<close> uses the \<^verbatim>\<open>previous_hash\<close> it is given only when that is truthy: a
  non-empty string is stored as it is, whatever the ledger; for the empty string and
  for \<^verbatim>\<open>None\<close> the block gets the digest of the current last block.
\<close>

theorem new_block_previous_hash:
  "(h \<noteq> [] \<longrightarrow>
      (\<exists>b. new_block s now p (Some h)
              = Inr (s\<lparr>current_transactions := [], chain := chain s @ [b]\<rparr>, b) \<and>
            previous_hash b = h)) \<and>
   (chain s \<noteq> [] \<longrightarrow>
      (\<exists>b. new_block s now p (Some [])
              = Inr (s\<lparr>current_transactions := [], chain := chain s @ [b]\<rparr>, b) \<and>
            previous_hash b = hash_block (last (chain s))) \<and>
      (\<exists>b. new_block s now p None
              = Inr (s\<lparr>current_transactions := [], chain := chain s @ [b]\<rparr>, b) \<and>
            previous_hash b = hash_block (last (chain s))))"
  by (auto simp: new_block_def last_block_def Let_def split: list.splits)

theorem new_block_previous_hash_witness:
  "''abc'' \<noteq> [] \<and> chain fresh_ledger \<noteq> [] \<and>
   (\<exists>b. new_block fresh_ledger ''1500000060.0'' 35293 (Some ''abc'')
           = Inr (fresh_ledger\<lparr>current_transactions := [],
                                chain := chain fresh_ledger @ [b]\<rparr>, b) \<and>
         previous_hash b = ''abc'') \<and>
   (\<exists>b. new_block fresh_ledger ''1500000060.0'' 35293 (Some [])
           = Inr (fresh_ledger\<lparr>current_transactions := [],
                                chain := chain fresh_ledger @ [b]\<rparr>, b) \<and>
         previous_hash b = hash_block (last (chain fresh_ledger)))"
proof -
  have ne: "chain fresh_ledger \<noteq> []" by (simp add: fresh_ledger_def)
  have h: "''abc'' \<noteq> []" by simp
  from new_block_previous_hash [of "''abc''" fresh_ledger "''1500000060.0''" 35293] ne h
  show ?thesis by blast
qed

section \<open>Peers\<close>

lemma netloc_with_scheme: "netloc ''http://127.0.0.1:5002'' = Inr ''127.0.0.1:5002''"
  by code_simp

lemma netloc_without_scheme: "netloc ''127.0.0.1:5002'' = Inr []"
  by code_simp

lemma netloc_peer: "netloc ''http://10.0.0.2:5000'' = Inr ''10.0.0.2:5000''"
  by code_simp

text \<open>
  C10. \<^verbatim>\<open>register_node\<close> adds to the set of nodes exactly the network location of the
  parsed address, so registering an address a second time changes nothing; for
  \<^verbatim>\<open>http://127.0.0.1:5002\<close> the entry is \<^verbatim>\<open>127.0.0.1:5002\<close>, and for \<^verbatim>\<open>127.0.0.1:5002\<close>,
  which has no scheme, the network location is empty and the empty string is added.
\<close>

theorem register_node_netloc:
  "(netloc address = Inr loc \<longrightarrow>
      register_node s address = Inr (s\<lparr>nodes := insert loc (nodes s)\<rparr>) \<and>
      register_node (s\<lparr>nodes := insert loc (nodes s)\<rparr>) address
        = Inr (s\<lparr>nodes := insert loc (nodes s)\<rparr>)) \<and>
   register_node s ''http://127.0.0.1:5002''
     = Inr (s\<lparr>nodes := insert ''127.0.0.1:5002'' (nodes s)\<rparr>) \<and>
   register_node s ''127.0.0.1:5002'' = Inr (s\<lparr>nodes := insert [] (nodes s)\<rparr>)"
  by (simp add: register_node_def netloc_with_scheme netloc_without_scheme)

theorem register_node_netloc_witness:
  "netloc ''http://10.0.0.2:5000'' = Inr ''10.0.0.2:5000'' \<and>
   register_node fresh_ledger ''http://10.0.0.2:5000'' = Inr peered_ledger \<and>
   register_node peered_ledger ''http://10.0.0.2:5000'' = Inr peered_ledger"
  using register_node_netloc [of "''http://10.0.0.2:5000''" "''10.0.0.2:5000''" fresh_ledger]
    netloc_peer
  by (simp add: peered_ledger_def fresh_ledger_def)

section \<open>Conflict resolution\<close>

lemma resolve_loop_origin:
  "resolve_loop fetch ns m nc = Inr (m', nc') \<Longrightarrow>
   nc' = nc \<or> (\<exists>url r. fetch url = Inr r \<and> nc' = Some (reported_chain r))"
proof (induction ns arbitrary: m nc)
  case Nil
  then show ?case by simp
next
  case (Cons node rest)
  show ?case
  proof (cases "fetch (''http://'' @ node @ ''/chain'')")
    case (Inl e)
    with Cons.prems show ?thesis by simp
  next
    case (Inr r)
    show ?thesis
    proof (cases "status_code r = 200 \<and> reported_length r > m
                    \<and> valid_chain (reported_chain r) = Inr True")
      case True
      with Cons.prems Inr
      have "resolve_loop fetch rest (reported_length r) (Some (reported_chain r)) = Inr (m', nc')"
        by simp
      from Cons.IH [OF this] Inr show ?thesis by blast
    next
      case False
      with Cons.prems Inr have "resolve_loop fetch rest m nc = Inr (m', nc')"
        by (auto split: if_splits sum.splits)
      from Cons.IH [OF this] show ?thesis .
    qed
  qed
qed

lemma resolve_conflicts_chain:
  assumes "resolve_conflicts fetch ns s = Inr (s', res)"
  shows "chain s' = chain s \<or> (\<exists>url r. fetch url = Inr r \<and> chain s' = reported_chain r)"
proof -
  from assms obtain m nc where l: "resolve_loop fetch ns (int (length (chain s))) None = Inr (m, nc)"
    by (auto simp: resolve_conflicts_def split: sum.splits)
  from assms l have "chain s' = chain s \<or> nc = Some (chain s')"
    by (auto simp: resolve_conflicts_def split: option.splits if_splits)
  moreover from resolve_loop_origin [OF l]
  have "nc = None \<or> (\<exists>url r. fetch url = Inr r \<and> nc = Some (reported_chain r))" .
  ultimately show ?thesis by (elim disjE exE conjE) (simp_all, blast)
qed

text \<open>
  C1, where the code departs from it. With no peer to ask, \<^verbatim>\<open>resolve_conflicts\<close> leaves
  the ledger as it is and ends without a \<^verbatim>\<open>return\<close>: the caller gets \<^verbatim>\<open>None\<close>, not the
  boolean \<^verbatim>\<open>False\<close>.
\<close>

theorem resolve_conflicts_returns_None:
  "resolve_conflicts fetch [] s = Inr (s, None) \<and>
   resolve_conflicts fetch [] s \<noteq> Inr (s, Some False)"
  by (simp add: resolve_conflicts_def)

section \<open>The index invariant\<close>

lemma valid_chain_peer: "valid_chain [peer_block1, peer_block2] = Inr True"
proof -
  have "linked [peer_block1, peer_block2] j" if "0 < j \<and> j < 2" for j
  proof -
    from that have "j = 1" by simp
    then show ?thesis
      using valid_proof_100_35293
      by (simp add: linked_def peer_block1_def peer_block2_def genesis_block_def)
  qed
  then show ?thesis by (simp add: valid_chain_linked)
qed

lemma reachable_adopted_ledger: "reachable any_chain adopted_ledger"
proof -
  have "reachable any_chain fresh_ledger"
    by (rule reachable.r_init [of "''1500000000.0''"])
       (simp add: init_eq fresh_ledger_def genesis_block_def)
  moreover have "register_node fresh_ledger ''http://10.0.0.2:5000'' = Inr peered_ledger"
    by (simp add: register_node_def netloc_peer peered_ledger_def fresh_ledger_def)
  ultimately have "reachable any_chain peered_ledger"
    by (rule reachable.r_register)
  moreover have "set [''10.0.0.2:5000''] = nodes peered_ledger"
    by (simp add: peered_ledger_def)
  moreover have "distinct [''10.0.0.2:5000'']" by simp
  moreover have "\<forall>url r. peer_fetch url = Inr r \<longrightarrow> any_chain (reported_chain r)"
    by (simp add: any_chain_def)
  moreover have "resolve_conflicts peer_fetch [''10.0.0.2:5000''] peered_ledger
                   = Inr (adopted_ledger, Some True)"
    by (simp add: resolve_conflicts_def peer_fetch_def valid_chain_peer adopted_ledger_def
                  peered_ledger_def fresh_ledger_def)
  ultimately show ?thesis by (rule reachable.r_resolve)
qed

text \<open>
  C2 as stated fails: a peer's chain of two linked blocks that both carry the index 7
  passes \<^verbatim>\<open>valid_chain\<close>, is longer than the genesis chain, and is adopted.
\<close>

theorem index_invariant_counterexample:
  "reachable any_chain adopted_ledger \<and> index (chain adopted_ledger ! 0) = 7 \<and>
   \<not> well_indexed (chain adopted_ledger)"
proof -
  have i: "index (chain adopted_ledger ! 0) = 7"
    by (simp add: adopted_ledger_def peer_block1_def)
  then have "\<not> well_indexed (chain adopted_ledger)"
    by (auto simp: well_indexed_def adopted_ledger_def intro!: exI [of _ 0])
  with i reachable_adopted_ledger show ?thesis by simp
qed

text \<open>
  C2, as the code has it. In every ledger reached by construction, \<^verbatim>\<open>new_transaction\<close>,
  \<^verbatim>\<open>new_block\<close>, \<^verbatim>\<open>register_node\<close> and \<^verbatim>\<open>resolve_conflicts\<close>, where every chain a peer
  reports numbers its blocks by position, the block at position \<open>n\<close> has index \<open>n\<close>.
  \<^verbatim>\<open>valid_chain\<close> itself never looks at an index.
\<close>

theorem reachable_well_indexed:
  "reachable well_indexed s \<Longrightarrow> well_indexed (chain s)"
proof (induction rule: reachable.induct)
  case (r_init now s)
  then show ?case by (auto simp: init_eq well_indexed_def)
next
  case (r_transaction s sndr rcpt amt s' i)
  then show ?case by (auto dest: new_transaction_chain)
next
  case (r_block s now p prev s' b)
  from new_block_result [OF r_block.hyps(2)] r_block.IH show ?case
    by (auto intro: well_indexed_append)
next
  case (r_register s address s')
  then show ?case by (auto simp: register_node_def split: sum.splits)
next
  case (r_resolve s ns fetch s' res)
  from resolve_conflicts_chain [OF r_resolve.hyps(5)] r_resolve.hyps(4) r_resolve.IH
  show ?case by auto
qed

theorem reachable_well_indexed_witness:
  "reachable well_indexed mined_ledger \<and> well_indexed (chain mined_ledger)"
proof -
  have "reachable well_indexed fresh_ledger"
    by (rule reachable.r_init [of "''1500000000.0''"])
       (simp add: init_eq fresh_ledger_def genesis_block_def)
  moreover have "new_block fresh_ledger ''1500000060.0'' 35293 None
                   = Inr (mined_ledger, second_block)"
    by (simp add: new_block_None fresh_ledger_def mined_ledger_def second_block_def Let_def)
  ultimately have r: "reachable well_indexed mined_ledger"
    by (rule reachable.r_block)
  from reachable_well_indexed [OF r] r show ?thesis by simp
qed

text \<open>
  C3 as stated fails on a ledger whose last block does not carry its position: after
  the adopted chain above, whose last block has index 7, the new block has index 3.
\<close>

theorem new_block_index_counterexample:
  "reachable any_chain adopted_ledger \<and> chain adopted_ledger \<noteq> [] \<and>
   map_sum id (index \<circ> snd) (new_block adopted_ledger ''1500000120.0'' 0 None) = Inr 3 \<and>
   index (last (chain adopted_ledger)) + 1 = 8"
  using reachable_adopted_ledger
  by (simp add: new_block_None Let_def adopted_ledger_def peer_block2_def)

section \<open>The hasher\<close>

lemma sort_key_fst_unique:
  assumes da: "distinct (map fst a)" and db: "distinct (map fst b)" and eq: "set a = set b"
  shows "sort_key fst a = sort_key fst b"
proof -
  let ?la = "sort_key fst a" and ?lb = "sort_key fst b"
  from da db have d: "distinct (map fst ?la)" "distinct (map fst ?lb)"
    by (simp_all add: distinct_map)
  have s: "sorted (map fst ?la)" "sorted (map fst ?lb)"
    by (simp_all add: sorted_sort_key)
  have "set (map fst ?la) = set (map fst ?lb)"
    using eq by simp
  with s d have keys: "map fst ?la = map fst ?lb"
    by (intro sorted_distinct_set_unique)
  from da have "inj_on fst (set a)" by (simp add: distinct_map)
  with eq have "inj_on fst (set ?la \<union> set ?lb)" by simp
  from inj_on_map_eq_map [OF this] keys show ?thesis by simp
qed

lemma keys_rendered: "map fst (map (\<lambda>(k, v). (k, dumps v)) zs) = map fst zs"
  by (induction zs) auto

lemma json_eq_dumps: "json_eq v w \<Longrightarrow> dumps v = dumps w"
proof (induction rule: json_eq.induct)
  case (eq_list xs ys)
  then have "map dumps xs = map dumps ys"
    by (induction rule: list_all2_induct) auto
  then show ?case by simp
next
  case (eq_dict xs ys)
  let ?f = "\<lambda>(k, v). (k, dumps v)"
  have sub: "set (map ?f as) \<subseteq> set (map ?f bs)"
    if keys: "fst ` set as = fst ` set bs"
      and same: "\<forall>k v w. (k, v) \<in> set as \<longrightarrow> (k, w) \<in> set bs \<longrightarrow> dumps v = dumps w"
    for as bs :: "(string \<times> json) list"
  proof
    fix x assume "x \<in> set (map ?f as)"
    then obtain k v where kv: "(k, v) \<in> set as" "x = (k, dumps v)" by auto
    then have "k \<in> fst ` set bs" using keys by force
    then obtain w where w: "(k, w) \<in> set bs" by auto
    with kv same have "dumps v = dumps w" by blast
    with kv w show "x \<in> set (map ?f bs)" by force
  qed
  from eq_dict.IH have 1: "\<forall>k v w. (k, v) \<in> set xs \<longrightarrow> (k, w) \<in> set ys \<longrightarrow> dumps v = dumps w"
    by blast
  then have 2: "\<forall>k v w. (k, v) \<in> set ys \<longrightarrow> (k, w) \<in> set xs \<longrightarrow> dumps v = dumps w"
    by metis
  have "set (map ?f xs) = set (map ?f ys)"
    using sub [OF eq_dict.hyps(3) 1] sub [OF eq_dict.hyps(3) [symmetric] 2] by blast
  moreover have "distinct (map fst (map ?f xs))" "distinct (map fst (map ?f ys))"
    using eq_dict.hyps(1,2) by (simp_all only: keys_rendered)
  ultimately have "sort_key fst (map ?f xs) = sort_key fst (map ?f ys)"
    by (intro sort_key_fst_unique)
  then show ?case by simp
qed simp_all

lemma json_eq_refl_atoms:
  "json_eq (JInt n) (JInt n)" "json_eq (JFloat r) (JFloat r)" "json_eq (JStr s) (JStr s)"
  by (rule json_eq.intros)+

text \<open>
  C7. \<^verbatim>\<open>hash\<close> is a function of the content of a block, not of the order of its fields:
  two dictionaries with the same keys and, under each key, the same value up to the
  order of the items of the dictionaries inside it (those of the transactions) have the
  same digest; so have two dictionaries with distinct keys that map each key to the same
  value. The digest is a function of its argument, so hashing a block twice gives the
  same digest.
\<close>

theorem hash_canonical:
  "(json_eq (JDict d1) (JDict d2) \<longrightarrow> hash d1 = hash d2) \<and>
   (distinct (map fst d1) \<and> distinct (map fst d2) \<and> map_of d1 = map_of d2
      \<longrightarrow> hash d1 = hash d2)"
proof (intro conjI impI)
  assume "json_eq (JDict d1) (JDict d2)"
  from json_eq_dumps [OF this] show "hash d1 = hash d2" by (simp add: hash_def)
next
  assume a: "distinct (map fst d1) \<and> distinct (map fst d2) \<and> map_of d1 = map_of d2"
  then have "set d1 = set d2"
    by (metis map_of_inject_set)
  then have "set (map (\<lambda>(k, v). (k, dumps v)) d1) = set (map (\<lambda>(k, v). (k, dumps v)) d2)"
    by simp
  moreover from a have "distinct (map fst (map (\<lambda>(k, v). (k, dumps v)) d1))"
    "distinct (map fst (map (\<lambda>(k, v). (k, dumps v)) d2))"
    by (simp_all only: keys_rendered)
  ultimately have "sort_key fst (map (\<lambda>(k, v). (k, dumps v)) d1)
                     = sort_key fst (map (\<lambda>(k, v). (k, dumps v)) d2)"
    by (intro sort_key_fst_unique)
  then show "hash d1 = hash d2" by (simp add: hash_def)
qed

lemma json_eq_received: "json_eq (JDict (block_dict reward_block)) (JDict received_dict)"
proof -
  have t: "json_eq (JDict (transaction_dict \<lparr>sender = ''0'', recipient = ''node'', amount = 1\<rparr>))
             (JDict [(''amount'', JInt 1), (''recipient'', JStr ''node''), (''sender'', JStr ''0'')])"
    by (rule json_eq.eq_dict) (auto simp: transaction_dict_def intro: json_eq.intros)
  show ?thesis
    by (rule json_eq.eq_dict)
       (auto simp: block_dict_def reward_block_def received_dict_def t
             intro: json_eq.intros)
qed

theorem hash_canonical_witness:
  "json_eq (JDict (block_dict reward_block)) (JDict received_dict) \<and>
   block_dict reward_block \<noteq> received_dict \<and>
   hash (block_dict reward_block) = hash received_dict \<and>
   distinct (map fst (block_dict reward_block)) \<and> distinct (map fst shuffled_dict) \<and>
   map_of (block_dict reward_block) = map_of shuffled_dict \<and>
   block_dict reward_block \<noteq> shuffled_dict \<and>
   hash (block_dict reward_block) = hash shuffled_dict"
proof -
  have d: "distinct (map fst (block_dict reward_block))" "distinct (map fst shuffled_dict)"
    by (simp_all add: block_dict_def shuffled_dict_def)
  have m: "map_of (block_dict reward_block) = map_of shuffled_dict"
    by (auto simp: block_dict_def shuffled_dict_def reward_block_def transaction_dict_def
                   fun_eq_iff)
  have n: "block_dict reward_block \<noteq> received_dict" "block_dict reward_block \<noteq> shuffled_dict"
    by (simp_all add: block_dict_def received_dict_def shuffled_dict_def)
  from hash_canonical [of "block_dict reward_block" received_dict]
    hash_canonical [of "block_dict reward_block" shuffled_dict]
    json_eq_received d m n
  show ?thesis by blast
qed

end
